theory Spec2Isabelle
  imports Complex_Main "HOL-Library.List_Lexorder" "HOL-Library.Multiset"
begin

section \<open>Python strings\<close>

text \<open>
  A Python \<open>str\<close> is a sequence of Unicode code points, so a string is a list of
  code points (natural numbers); \<open>len\<close>, \<open>sorted\<close> and \<open>==\<close> all work on code points.
  The literals of the source that are not ASCII are written out by code point.
\<close>

type_synonym codepoint = nat
type_synonym str = "codepoint list"

text \<open>The three choices of the check-box group \<open>preprocess_options_checkbox\<close>.\<close>

definition opt_lowercase :: str where
  "opt_lowercase = [0xC18C, 0xBB38, 0xC790, 0xD654]"

definition opt_remove_symbols :: str where
  "opt_remove_symbols = [0xC22B, 0xC790, 0x2F, 0xAE30, 0xD638, 0x20, 0xC81C, 0xAC70]"

definition opt_collapse_spaces :: str where
  "opt_collapse_spaces = [0xC911, 0xBCF5, 0x20, 0xACF5, 0xBC31, 0x20, 0xC815, 0xB9AC]"

text \<open>
  \<open>str.lower\<close>, the regular-expression classes \<open>\w\<close> and \<open>\s\<close> and \<open>str.strip\<close> read the
  Unicode character database of the interpreter. The database is a parameter of the
  model: \<open>py_lower\<close> is \<open>str.lower\<close>, \<open>re_word\<close> is the class \<open>\w\<close> and \<open>re_space\<close> is the
  class \<open>\s\<close>, which is also the set of characters \<open>str.strip()\<close> removes.
\<close>

record chardb =
  py_lower :: "str \<Rightarrow> str"
  re_word :: "codepoint \<Rightarrow> bool"
  re_space :: "codepoint \<Rightarrow> bool"

text \<open>
  What the model needs of the database: the space U+0020 is white space, and a text
  made of characters that occur in a lower-cased text, and of spaces, is left alone by
  \<open>str.lower\<close>.
\<close>

definition chardb_ok :: "chardb \<Rightarrow> bool" where
  "chardb_ok U \<longleftrightarrow>
     re_space U 32 \<and>
     (\<forall>s t. set t \<subseteq> insert 32 (set (py_lower U s)) \<longrightarrow> py_lower U t = t)"

text \<open>An ASCII database, for concrete evaluation.\<close>

definition ascii_lower_char :: "codepoint \<Rightarrow> codepoint" where
  "ascii_lower_char c = (if 65 \<le> c \<and> c \<le> 90 then c + 32 else c)"

definition ascii_db :: chardb where
  "ascii_db = \<lparr>
     py_lower = map ascii_lower_char,
     re_word = (\<lambda>c. (48 \<le> c \<and> c \<le> 57) \<or> (65 \<le> c \<and> c \<le> 90) \<or> c = 95 \<or> (97 \<le> c \<and> c \<le> 122)),
     re_space = (\<lambda>c. (9 \<le> c \<and> c \<le> 13) \<or> (28 \<le> c \<and> c \<le> 32)) \<rparr>"

section \<open>Text preprocessing\<close>

text \<open>\<open>re.sub(r'[^\w\s]', '', text)\<close>: every character outside both classes is deleted.\<close>

definition remove_symbols :: "chardb \<Rightarrow> str \<Rightarrow> str" where
  "remove_symbols U text = filter (\<lambda>c. re_word U c \<or> re_space U c) text"

text \<open>\<open>re.sub(r'\s+', ' ', text)\<close>: every maximal run of white space becomes one space.\<close>

function collapse_ws :: "(codepoint \<Rightarrow> bool) \<Rightarrow> str \<Rightarrow> str" where
  "collapse_ws sp [] = []"
| "collapse_ws sp (c # cs) =
     (if sp c then 32 # collapse_ws sp (dropWhile sp cs) else c # collapse_ws sp cs)"
  by pat_completeness auto
termination
  by (relation "measure (\<lambda>(sp, s). length s)") (auto simp: length_dropWhile_le less_Suc_eq_le)

text \<open>\<open>str.strip()\<close>: leading and trailing white space is removed.\<close>

definition strip :: "(codepoint \<Rightarrow> bool) \<Rightarrow> str \<Rightarrow> str" where
  "strip sp s = rev (dropWhile sp (rev (dropWhile sp s)))"

definition preprocess_text :: "chardb \<Rightarrow> str \<Rightarrow> str list \<Rightarrow> str" where
  "preprocess_text U text options =
     (let text = (if opt_lowercase \<in> set options then py_lower U text else text);
          text = (if opt_remove_symbols \<in> set options then remove_symbols U text else text);
          text = (if opt_collapse_spaces \<in> set options
                  then strip (re_space U) (collapse_ws (re_space U) text) else text)
      in text)"

text \<open>
  A text is white-space normal when each of its white-space characters is the space
  U+0020 and is not followed by another white-space character.
\<close>

fun ws_normal :: "(codepoint \<Rightarrow> bool) \<Rightarrow> str \<Rightarrow> bool" where
  "ws_normal sp [] = True"
| "ws_normal sp (c # cs) =
     ((if sp c then c = 32 \<and> (case cs of [] \<Rightarrow> True | d # _ \<Rightarrow> \<not> sp d) else True)
      \<and> ws_normal sp cs)"

section \<open>JSON serialization\<close>

text \<open>ASCII literals of the source, as code points.\<close>

definition ascii :: "string \<Rightarrow> str" where
  "ascii s = map of_char s"

text \<open>
  The values \<open>json.dumps\<close> is given by this program. A Python \<open>dict\<close> is the list of
  its items in insertion order; its keys are strings.
\<close>

datatype json =
    JNull
  | JBool bool
  | JInt int
  | JStr str
  | JList "json list"
  | JDict "(str \<times> json) list"

text \<open>\<open>'{0:04x}'.format(n)\<close> for \<open>n < 0x10000\<close>: four lower-case hexadecimal digits.\<close>

definition hex_digit :: "nat \<Rightarrow> codepoint" where
  "hex_digit d = (if d < 10 then 48 + d else 87 + d)"

definition hex4 :: "nat \<Rightarrow> str" where
  "hex4 n = [hex_digit (n div 4096 mod 16), hex_digit (n div 256 mod 16),
             hex_digit (n div 16 mod 16), hex_digit (n mod 16)]"

definition u_escape :: "nat \<Rightarrow> str" where
  "u_escape n = [92, 117] @ hex4 n"

text \<open>
  The replacement function of \<open>json.encoder.py_encode_basestring_ascii\<close>, the string
  encoder of \<open>json.dumps\<close> under its default \<open>ensure_ascii=True\<close>: backslash, double
  quote and the five short escapes first, printable ASCII as it is, any other character
  of the basic plane as \<open>\uXXXX\<close>, and a character beyond it as a surrogate pair
  (\<open>0xd800 | ((n >> 10) & 0x3ff)\<close> and \<open>0xdc00 | (n & 0x3ff)\<close>, written with \<open>div\<close>, \<open>mod\<close>
  and \<open>+\<close>).
\<close>

definition escape_char :: "codepoint \<Rightarrow> str" where
  "escape_char c =
     (if c = 92 then [92, 92]
      else if c = 34 then [92, 34]
      else if c = 8 then [92, 98]
      else if c = 12 then [92, 102]
      else if c = 10 then [92, 110]
      else if c = 13 then [92, 114]
      else if c = 9 then [92, 116]
      else if 32 \<le> c \<and> c \<le> 126 then [c]
      else if c < 0x10000 then u_escape c
      else (let n = c - 0x10000
            in u_escape (0xD800 + n div 1024 mod 1024) @ u_escape (0xDC00 + n mod 1024)))"

definition encode_str :: "str \<Rightarrow> str" where
  "encode_str s = 34 # concat (map escape_char s) @ [34]"

text \<open>\<open>int.__repr__\<close>: decimal digits, with a minus sign for a negative number.\<close>

function dec_digits :: "nat \<Rightarrow> str" where
  "dec_digits n = (if n < 10 then [48 + n] else dec_digits (n div 10) @ [48 + n mod 10])"
  by pat_completeness auto
termination
  by (relation "measure id") auto

declare dec_digits.simps [simp del]

definition int_repr :: "int \<Rightarrow> str" where
  "int_repr i = (if i < 0 then 45 # dec_digits (nat (- i)) else dec_digits (nat i))"

text \<open>\<open>sep.join(parts)\<close>.\<close>

fun join :: "str \<Rightarrow> str list \<Rightarrow> str" where
  "join sep [] = []"
| "join sep [x] = x"
| "join sep (x # y # ys) = x @ sep @ join sep (y # ys)"

text \<open>
  \<open>json.dumps(value, sort_keys=True)\<close> with the default separators \<open>', '\<close> and \<open>': '\<close>
  and no indentation: the items of a dictionary are written in the order of their keys.
\<close>

function json_dumps :: "json \<Rightarrow> str" where
  "json_dumps JNull = ascii ''null''"
| "json_dumps (JBool b) = (if b then ascii ''true'' else ascii ''false'')"
| "json_dumps (JInt i) = int_repr i"
| "json_dumps (JStr s) = encode_str s"
| "json_dumps (JList xs) = [91] @ join (ascii '', '') (map json_dumps xs) @ [93]"
| "json_dumps (JDict kvs) =
     [123] @ join (ascii '', '')
               (map (\<lambda>kv. encode_str (fst kv) @ ascii '': '' @ json_dumps (snd kv))
                    (sort_key fst kvs)) @ [125]"
  by pat_completeness auto
termination
proof (relation "measure size")
  show "wf (measure size)" by simp
next
  fix xs :: "json list" and x
  assume "x \<in> set xs"
  then show "(x, JList xs) \<in> measure size"
    by (induction xs) auto
next
  fix kvs :: "(str \<times> json) list" and kv
  assume "kv \<in> set (sort_key fst kvs)"
  then have "kv \<in> set kvs" by simp
  then show "(snd kv, JDict kvs) \<in> measure size"
    by (induction kvs) auto
qed

section \<open>Cache key\<close>

text \<open>
  \<open>get_config_hash\<close>: the configuration is serialized with sorted keys and hashed. The
  digest \<open>sha1\<close> stands for \<open>hashlib.sha1(text.encode()).hexdigest()\<close>, a function of the
  serialized text; it is a parameter.
\<close>

definition get_config_hash :: "(str \<Rightarrow> str) \<Rightarrow> json \<Rightarrow> str" where
  "get_config_hash sha1 config = sha1 (json_dumps config)"

text \<open>The dictionary \<open>config\<close> that \<open>get_db_path\<close> builds, its items in the order written.\<close>

definition db_config :: "str \<Rightarrow> str \<Rightarrow> str list \<Rightarrow> bool \<Rightarrow> int \<Rightarrow> int \<Rightarrow> json" where
  "db_config file_name model_name preprocess_options use_chunking chunk_size chunk_overlap =
     JDict [
       (ascii ''file_name'', JStr file_name),
       (ascii ''model_name'', JStr model_name),
       (ascii ''preprocess'', JList (map JStr (sort preprocess_options))),
       (ascii ''chunking'', JDict [
          (ascii ''use'', JBool use_chunking),
          (ascii ''size'', JInt chunk_size),
          (ascii ''overlap'', JInt chunk_overlap)]),
       (ascii ''distance_metric'', JStr (ascii ''cosine''))]"

text \<open>\<open>CACHE_DIR / config_hash\<close> with \<open>CACHE_DIR = Path("./vs_cache")\<close>, as the path text.\<close>

definition CACHE_DIR :: str where
  "CACHE_DIR = ascii ''vs_cache''"

definition get_db_path :: "(str \<Rightarrow> str) \<Rightarrow> str \<Rightarrow> str \<Rightarrow> str list \<Rightarrow> bool \<Rightarrow> int \<Rightarrow> int \<Rightarrow> str" where
  "get_db_path sha1 file_name model_name preprocess_options use_chunking chunk_size chunk_overlap =
     (let config = db_config file_name model_name preprocess_options
                     use_chunking chunk_size chunk_overlap;
          config_hash = get_config_hash sha1 config
      in CACHE_DIR @ [47] @ config_hash)"

text \<open>
  A code point is a Unicode scalar value when it is in range and is not a surrogate; a
  text decoded from well-formed UTF-8 or UTF-16 consists of scalar values.
\<close>

definition scalar_value :: "codepoint \<Rightarrow> bool" where
  "scalar_value c \<longleftrightarrow> c < 0x110000 \<and> \<not> (0xD800 \<le> c \<and> c \<le> 0xDFFF)"

definition well_formed :: "str \<Rightarrow> bool" where
  "well_formed s = list_all scalar_value s"

section \<open>Properties of preprocessing\<close>

lemma collapse_ws_head:
  "\<not> sp c \<Longrightarrow> collapse_ws sp (c # cs) = c # collapse_ws sp cs"
  by simp

lemma collapse_ws_no_space_head:
  "s \<noteq> [] \<Longrightarrow> \<not> sp (hd s) \<Longrightarrow> collapse_ws sp s \<noteq> [] \<and> \<not> sp (hd (collapse_ws sp s))"
  by (cases s) auto

lemma ws_normal_collapse:
  assumes "sp 32"
  shows "ws_normal sp (collapse_ws sp s)"
proof (induction sp s rule: collapse_ws.induct)
  case (1 sp)
  show ?case by simp
next
  case (2 sp c cs)
  show ?case
  proof (cases "sp c")
    case True
    have tail: "ws_normal sp (collapse_ws sp (dropWhile sp cs))"
      using 2 True by simp
    have "case collapse_ws sp (dropWhile sp cs) of [] \<Rightarrow> True | d # _ \<Rightarrow> \<not> sp d"
    proof (cases "dropWhile sp cs = []")
      case True
      show ?thesis unfolding True by simp
    next
      case False
      then have "\<not> sp (hd (dropWhile sp cs))" by (rule hd_dropWhile)
      with False have "collapse_ws sp (dropWhile sp cs) \<noteq> [] \<and>
          \<not> sp (hd (collapse_ws sp (dropWhile sp cs)))"
        by (rule collapse_ws_no_space_head)
      then show ?thesis
        by (cases "collapse_ws sp (dropWhile sp cs)") simp_all
    qed
    with tail True show ?thesis by simp
  next
    case False
    with 2 show ?thesis by simp
  qed
qed

lemma collapse_ws_normal: "ws_normal sp s \<Longrightarrow> collapse_ws sp s = s"
proof (induction s)
  case Nil
  show ?case by simp
next
  case (Cons c cs)
  show ?case
  proof (cases "sp c")
    case True
    with Cons.prems have "dropWhile sp cs = cs"
      by (cases cs) auto
    with Cons True show ?thesis by simp
  next
    case False
    with Cons show ?thesis by simp
  qed
qed

lemma ws_normal_append_left: "ws_normal sp (a @ b) \<Longrightarrow> ws_normal sp a"
proof (induction a)
  case Nil
  show ?case by simp
next
  case (Cons c a)
  then show ?case
    by (cases a) (auto split: list.splits if_splits)
qed

lemma ws_normal_append_right: "ws_normal sp (a @ b) \<Longrightarrow> ws_normal sp b"
  by (induction a) auto

lemma ws_normal_strip: "ws_normal sp s \<Longrightarrow> ws_normal sp (strip sp s)"
proof -
  assume n: "ws_normal sp s"
  let ?d = "dropWhile sp s"
  have "s = takeWhile sp s @ ?d" by simp
  with n have d: "ws_normal sp ?d"
    using ws_normal_append_right [of sp "takeWhile sp s" ?d] by simp
  have "rev ?d = takeWhile sp (rev ?d) @ dropWhile sp (rev ?d)" by simp
  then have "?d = rev (dropWhile sp (rev ?d)) @ rev (takeWhile sp (rev ?d))"
    by (metis rev_append rev_rev_ident)
  with d have "ws_normal sp (rev (dropWhile sp (rev ?d)))"
    using ws_normal_append_left [of sp "rev (dropWhile sp (rev ?d))" "rev (takeWhile sp (rev ?d))"]
    by simp
  then show ?thesis by (simp add: strip_def)
qed

lemma strip_last: "strip sp s \<noteq> [] \<Longrightarrow> \<not> sp (last (strip sp s))"
proof -
  assume ne: "strip sp s \<noteq> []"
  let ?r = "dropWhile sp (rev (dropWhile sp s))"
  from ne have "?r \<noteq> []" by (simp add: strip_def)
  then have "\<not> sp (hd ?r)" by (rule hd_dropWhile)
  moreover have "last (strip sp s) = hd ?r"
    using \<open>?r \<noteq> []\<close> by (simp add: strip_def last_rev)
  ultimately show ?thesis by simp
qed

lemma strip_hd: "strip sp s \<noteq> [] \<Longrightarrow> \<not> sp (hd (strip sp s))"
proof -
  assume ne: "strip sp s \<noteq> []"
  let ?d = "dropWhile sp s"
  let ?r = "dropWhile sp (rev ?d)"
  have "rev ?d = takeWhile sp (rev ?d) @ ?r" by simp
  then have split: "?d = strip sp s @ rev (takeWhile sp (rev ?d))"
    unfolding strip_def by (metis rev_append rev_rev_ident)
  with ne have "?d \<noteq> []" by (metis append_is_Nil_conv)
  then have "\<not> sp (hd ?d)" by (rule hd_dropWhile)
  moreover from split ne have "hd ?d = hd (strip sp s)"
    by (metis hd_append2)
  ultimately show ?thesis by simp
qed

lemma strip_fixed:
  assumes "s = [] \<or> (\<not> sp (hd s) \<and> \<not> sp (last s))"
  shows "strip sp s = s"
proof (cases "s = []")
  case True
  then show ?thesis by (simp add: strip_def)
next
  case False
  with assms have h: "\<not> sp (hd s)" and l: "\<not> sp (last s)" by auto
  from False h have "dropWhile sp s = s" by (cases s) auto
  moreover from False l have "dropWhile sp (rev s) = rev s"
    by (cases "rev s") (auto simp: last_rev [symmetric] simp del: last_rev)
  ultimately show ?thesis by (simp add: strip_def)
qed

lemma normalise_idem:
  assumes "sp 32"
  shows "strip sp (collapse_ws sp (strip sp (collapse_ws sp s))) = strip sp (collapse_ws sp s)"
proof -
  let ?n = "strip sp (collapse_ws sp s)"
  have "ws_normal sp ?n"
    using assms by (simp add: ws_normal_collapse ws_normal_strip)
  then have "collapse_ws sp ?n = ?n" by (rule collapse_ws_normal)
  moreover have "strip sp ?n = ?n"
    using strip_hd [of sp "collapse_ws sp s"] strip_last [of sp "collapse_ws sp s"]
    by (intro strip_fixed) auto
  ultimately show ?thesis by simp
qed

lemma set_collapse_ws: "set (collapse_ws sp s) \<subseteq> insert 32 (set s)"
proof (induction sp s rule: collapse_ws.induct)
  case (1 sp)
  show ?case by simp
next
  case (2 sp c cs)
  have "set (dropWhile sp cs) \<subseteq> set cs" by (rule set_dropWhileD [THEN subsetI])
  with 2 show ?case by (cases "sp c") auto
qed

lemma set_strip: "set (strip sp s) \<subseteq> set s"
proof -
  have "set (dropWhile sp (rev (dropWhile sp s))) \<subseteq> set (rev (dropWhile sp s))"
    by (rule set_dropWhileD [THEN subsetI])
  moreover have "set (dropWhile sp s) \<subseteq> set s"
    by (rule set_dropWhileD [THEN subsetI])
  ultimately show ?thesis by (auto simp: strip_def)
qed

lemma set_normalise: "set (strip sp (collapse_ws sp s)) \<subseteq> insert 32 (set s)"
  using set_strip [of sp "collapse_ws sp s"] set_collapse_ws [of sp s] by blast

lemma remove_symbols_fixed:
  "\<forall>c \<in> set s. re_word U c \<or> re_space U c \<Longrightarrow> remove_symbols U s = s"
  by (simp add: remove_symbols_def)

lemma remove_symbols_kept: "c \<in> set (remove_symbols U s) \<Longrightarrow> re_word U c \<or> re_space U c"
  by (simp add: remove_symbols_def)

lemma set_remove_symbols: "set (remove_symbols U s) \<subseteq> set s"
  by (auto simp: remove_symbols_def)

lemma ascii_db_ok: "chardb_ok ascii_db"
proof -
  have idem: "ascii_lower_char (ascii_lower_char c) = ascii_lower_char c" for c
    by (simp add: ascii_lower_char_def)
  have "map ascii_lower_char t = t" if "set t \<subseteq> insert 32 (set (map ascii_lower_char s))" for s t
  proof (rule map_idI)
    fix x assume "x \<in> set t"
    with that have "x = 32 \<or> (\<exists>c. x = ascii_lower_char c)" by auto
    then show "ascii_lower_char x = x"
    proof (elim disjE exE)
      assume "x = 32"
      then show ?thesis by (simp add: ascii_lower_char_def)
    next
      fix c assume "x = ascii_lower_char c"
      then show ?thesis using idem by simp
    qed
  qed
  then show ?thesis by (simp add: chardb_ok_def ascii_db_def)
qed

text \<open>
  Claim C10. \<open>preprocess_text\<close> is idempotent: for every text and every list of
  options, preprocessing the preprocessed text again with the same options changes
  nothing. The character database is any one in which lower-cased text is stable under
  \<open>str.lower\<close> and U+0020 is white space.
\<close>

theorem preprocess_text_idempotent:
  assumes ok: "chardb_ok U"
  shows "preprocess_text U (preprocess_text U text options) options
       = preprocess_text U text options"
proof -
  let ?sp = "re_space U"
  define x1 where "x1 = (if opt_lowercase \<in> set options then py_lower U text else text)"
  define x2 where "x2 = (if opt_remove_symbols \<in> set options then remove_symbols U x1 else x1)"
  define y where "y = (if opt_collapse_spaces \<in> set options
                       then strip ?sp (collapse_ws ?sp x2) else x2)"
  have y: "preprocess_text U text options = y"
    by (simp add: preprocess_text_def x1_def x2_def y_def)
  from ok have sp32: "?sp 32"
    and low: "\<And>s t. set t \<subseteq> insert 32 (set (py_lower U s)) \<Longrightarrow> py_lower U t = t"
    by (auto simp: chardb_ok_def)
  have x2_sub: "set x2 \<subseteq> set x1"
    using set_remove_symbols [of U x1] by (simp add: x2_def)
  have y_sub: "set y \<subseteq> insert 32 (set x2)"
    using set_normalise [of ?sp x2] by (auto simp: y_def)
  have step1: "(if opt_lowercase \<in> set options then py_lower U y else y) = y"
  proof (cases "opt_lowercase \<in> set options")
    case True
    then have "set y \<subseteq> insert 32 (set (py_lower U text))"
      using y_sub x2_sub by (auto simp: x1_def)
    then have "py_lower U y = y" by (rule low)
    then show ?thesis by simp
  next
    case False
    then show ?thesis by simp
  qed
  have step2: "(if opt_remove_symbols \<in> set options then remove_symbols U y else y) = y"
  proof (cases "opt_remove_symbols \<in> set options")
    case True
    have "re_word U c \<or> ?sp c" if "c \<in> set y" for c
    proof (cases "c = 32")
      case True
      with sp32 show ?thesis by simp
    next
      case False
      with that y_sub have "c \<in> set x2" by auto
      with \<open>opt_remove_symbols \<in> set options\<close> show ?thesis
        using remove_symbols_kept [of c U x1] by (simp add: x2_def)
    qed
    then have "remove_symbols U y = y"
      by (intro remove_symbols_fixed) blast
    then show ?thesis by simp
  next
    case False
    then show ?thesis by simp
  qed
  have step3: "(if opt_collapse_spaces \<in> set options
                then strip ?sp (collapse_ws ?sp y) else y) = y"
    using normalise_idem [of ?sp x2] sp32 by (simp add: y_def)
  have "preprocess_text U y options = y"
    unfolding preprocess_text_def Let_def by (simp only: step1 step2 step3)
  with y show ?thesis by simp
qed

text \<open>
  The theorem at the ASCII database and the text \<open>"Hi,  There! "\<close> with all three
  options: the result is \<open>"hi there"\<close>, and preprocessing it again returns it.
\<close>

theorem preprocess_text_idempotent_witness:
  "chardb_ok ascii_db
   \<and> preprocess_text ascii_db [72, 105, 44, 32, 32, 84, 104, 101, 114, 101, 33, 32]
         [opt_lowercase, opt_remove_symbols, opt_collapse_spaces]
       = [104, 105, 32, 116, 104, 101, 114, 101]
   \<and> preprocess_text ascii_db
         (preprocess_text ascii_db [72, 105, 44, 32, 32, 84, 104, 101, 114, 101, 33, 32]
            [opt_lowercase, opt_remove_symbols, opt_collapse_spaces])
         [opt_lowercase, opt_remove_symbols, opt_collapse_spaces]
       = [104, 105, 32, 116, 104, 101, 114, 101]"
proof -
  have v: "preprocess_text ascii_db [72, 105, 44, 32, 32, 84, 104, 101, 114, 101, 33, 32]
         [opt_lowercase, opt_remove_symbols, opt_collapse_spaces]
       = [104, 105, 32, 116, 104, 101, 114, 101]"
    by (simp add: preprocess_text_def ascii_db_def ascii_lower_char_def remove_symbols_def
        strip_def)
  show ?thesis
    using preprocess_text_idempotent [OF ascii_db_ok,
        of "[72, 105, 44, 32, 32, 84, 104, 101, 114, 101, 33, 32]"
           "[opt_lowercase, opt_remove_symbols, opt_collapse_spaces]"]
      ascii_db_ok v
    by simp
qed

section \<open>Properties of the serialization\<close>

lemma hex_digit_inj: "a < 16 \<Longrightarrow> b < 16 \<Longrightarrow> hex_digit a = hex_digit b \<Longrightarrow> a = b"
  by (auto simp: hex_digit_def split: if_splits)

lemma div_mod_16_eq: "x div 16 = y div 16 \<Longrightarrow> x mod 16 = y mod 16 \<Longrightarrow> x = y" for x y :: nat
  by (metis div_mult_mod_eq)

lemma hex_digit_mod_inj:
  "hex_digit (x mod 16) = hex_digit (y mod 16) \<Longrightarrow> x mod 16 = y mod 16"
  by (rule hex_digit_inj) simp_all

lemma hex4_inj:
  assumes "a < 65536" "b < 65536" "hex4 a = hex4 b"
  shows "a = b"
proof -
  from assms(3) have h: "hex_digit (a div 4096 mod 16) = hex_digit (b div 4096 mod 16)"
    "hex_digit (a div 256 mod 16) = hex_digit (b div 256 mod 16)"
    "hex_digit (a div 16 mod 16) = hex_digit (b div 16 mod 16)"
    "hex_digit (a mod 16) = hex_digit (b mod 16)"
    by (simp_all add: hex4_def)
  have e3: "a div 4096 mod 16 = b div 4096 mod 16" using h(1) by (rule hex_digit_mod_inj)
  have e2: "a div 256 mod 16 = b div 256 mod 16" using h(2) by (rule hex_digit_mod_inj)
  have e1: "a div 16 mod 16 = b div 16 mod 16" using h(3) by (rule hex_digit_mod_inj)
  have e0: "a mod 16 = b mod 16" using h(4) by (rule hex_digit_mod_inj)
  have "a div 4096 < 16" "b div 4096 < 16"
    using assms(1,2) by (simp_all add: less_mult_imp_div_less)
  with e3 have "a div 4096 = b div 4096" by simp
  then have "a div 256 div 16 = b div 256 div 16" by (simp add: div_mult2_eq [symmetric])
  then have "a div 256 = b div 256" using e2 by (rule div_mod_16_eq)
  then have "a div 16 div 16 = b div 16 div 16" by (simp add: div_mult2_eq [symmetric])
  then have "a div 16 = b div 16" using e1 by (rule div_mod_16_eq)
  then show ?thesis using e0 by (rule div_mod_16_eq)
qed

lemma hex4_append_eq [simp]: "hex4 a @ X = hex4 b @ Y \<longleftrightarrow> hex4 a = hex4 b \<and> X = Y"
  by (simp add: hex4_def)

lemma u_escape_append_eq:
  "u_escape a @ X = u_escape b @ Y \<longleftrightarrow> hex4 a = hex4 b \<and> X = Y"
  by (simp add: u_escape_def)

lemma hex4_surrogate_inj:
  assumes "hex4 (k + x mod 1024) = hex4 (k + y mod 1024)" "k \<le> 64512"
  shows "x mod 1024 = y mod 1024"
proof -
  have "x mod 1024 < 1024" "y mod 1024 < 1024" by simp_all
  with assms(2) have "k + x mod 1024 < 65536" "k + y mod 1024 < 65536" by linarith+
  then have "k + x mod 1024 = k + y mod 1024" using assms(1) by (rule hex4_inj)
  then show ?thesis by simp
qed

lemma hex4_bmp_surrogate:
  assumes "a < 65536" "hex4 a = hex4 (55296 + x mod 1024)"
  shows "55296 \<le> a \<and> a \<le> 57343"
proof -
  have "x mod 1024 < 1024" by simp
  then have "55296 + x mod 1024 < 65536" by linarith
  with assms(1) have "a = 55296 + x mod 1024" using assms(2) by (rule hex4_inj)
  with \<open>x mod 1024 < 1024\<close> show ?thesis by linarith
qed

lemma astral_split_inj:
  fixes a b :: nat
  assumes "65536 \<le> a" "65536 \<le> b" "a < 1114112" "b < 1114112"
    and hi: "(a - 65536) div 1024 mod 1024 = (b - 65536) div 1024 mod 1024"
    and lo: "(a - 65536) mod 1024 = (b - 65536) mod 1024"
  shows "a = b"
proof -
  have "(a - 65536) div 1024 < 1024" "(b - 65536) div 1024 < 1024"
    using assms(3,4) by (simp_all add: less_mult_imp_div_less)
  with hi have "(a - 65536) div 1024 = (b - 65536) div 1024" by simp
  with lo have "a - 65536 = b - 65536" by (metis div_mult_mod_eq)
  with assms(1,2) show ?thesis by linarith
qed

lemma escape_char_cancel:
  assumes a: "scalar_value a" and b: "scalar_value b"
    and eq: "escape_char a @ X = escape_char b @ Y"
  shows "a = b \<and> X = Y"
proof -
  consider (short) "a \<in> {92, 34, 8, 12, 10, 13, 9}"
    | (plain) "a \<notin> {92, 34, 8, 12, 10, 13, 9}" "32 \<le> a" "a \<le> 126"
    | (bmp) "a \<notin> {92, 34, 8, 12, 10, 13, 9}" "\<not> (32 \<le> a \<and> a \<le> 126)" "a < 65536"
    | (astral) "65536 \<le> a"
    by (cases "a < 65536") auto
  then show ?thesis
  proof cases
    case short
    then show ?thesis
      using eq by (auto simp: escape_char_def u_escape_def Let_def split: if_splits)
  next
    case plain
    then show ?thesis
      using eq by (auto simp: escape_char_def u_escape_def Let_def split: if_splits)
  next
    case bmp
    then have ea: "escape_char a = u_escape a"
      by (auto simp: escape_char_def)
    show ?thesis
    proof (cases "65536 \<le> b")
      case True
      then have eb: "escape_char b =
        u_escape (55296 + (b - 65536) div 1024 mod 1024) @ u_escape (56320 + (b - 65536) mod 1024)"
        by (auto simp: escape_char_def Let_def)
      from eq have "hex4 a = hex4 (55296 + (b - 65536) div 1024 mod 1024)"
        unfolding ea eb by (simp add: u_escape_def)
      with bmp(3) have "55296 \<le> a \<and> a \<le> 57343" by (rule hex4_bmp_surrogate)
      with a show ?thesis by (simp add: scalar_value_def)
    next
      case False
      then have "b < 65536" by simp
      show ?thesis
      proof (cases "b \<in> {92, 34, 8, 12, 10, 13, 9} \<or> (32 \<le> b \<and> b \<le> 126)")
        case True
        then show ?thesis
          using eq unfolding ea
          by (auto simp: escape_char_def u_escape_def split: if_splits)
      next
        case False
        with \<open>b < 65536\<close> have eb: "escape_char b = u_escape b"
          by (auto simp: escape_char_def)
        from eq have "hex4 a = hex4 b" and "X = Y"
          unfolding ea eb by (simp_all add: u_escape_def)
        from bmp(3) \<open>b < 65536\<close> \<open>hex4 a = hex4 b\<close> have "a = b" by (rule hex4_inj)
        with \<open>X = Y\<close> show ?thesis by simp
      qed
    qed
  next
    case astral
    then have ea: "escape_char a =
        u_escape (55296 + (a - 65536) div 1024 mod 1024) @ u_escape (56320 + (a - 65536) mod 1024)"
      by (auto simp: escape_char_def Let_def)
    show ?thesis
    proof (cases "65536 \<le> b")
      case True
      then have eb: "escape_char b =
        u_escape (55296 + (b - 65536) div 1024 mod 1024) @ u_escape (56320 + (b - 65536) mod 1024)"
        by (auto simp: escape_char_def Let_def)
      from eq have h: "hex4 (55296 + (a - 65536) div 1024 mod 1024)
            = hex4 (55296 + (b - 65536) div 1024 mod 1024)"
        and l: "hex4 (56320 + (a - 65536) mod 1024) = hex4 (56320 + (b - 65536) mod 1024)"
        and xy: "X = Y"
        unfolding ea eb by (simp_all add: u_escape_def)
      have hi: "(a - 65536) div 1024 mod 1024 = (b - 65536) div 1024 mod 1024"
        using h by (rule hex4_surrogate_inj) simp
      have lo: "(a - 65536) mod 1024 = (b - 65536) mod 1024"
        using l by (rule hex4_surrogate_inj) simp
      have "a < 1114112" "b < 1114112"
        using a b by (simp_all add: scalar_value_def)
      with astral True have "a = b"
        using hi lo by (rule astral_split_inj)
      with xy show ?thesis by simp
    next
      case False
      then have "b < 65536" by simp
      show ?thesis
      proof (cases "b \<in> {92, 34, 8, 12, 10, 13, 9} \<or> (32 \<le> b \<and> b \<le> 126)")
        case True
        then show ?thesis
          using eq unfolding ea
          by (auto simp: escape_char_def u_escape_def split: if_splits)
      next
        case False
        with \<open>b < 65536\<close> have eb: "escape_char b = u_escape b"
          by (auto simp: escape_char_def)
        from eq have "hex4 b = hex4 (55296 + (a - 65536) div 1024 mod 1024)"
          unfolding ea eb by (simp add: u_escape_def)
        with \<open>b < 65536\<close> have "55296 \<le> b \<and> b \<le> 57343" by (rule hex4_bmp_surrogate)
        with b show ?thesis by (simp add: scalar_value_def)
      qed
    qed
  qed
qed

lemma escape_char_no_quote: "escape_char c @ X \<noteq> 34 # Y"
  by (simp add: escape_char_def u_escape_def Let_def)

lemma escaped_text_cancel:
  "well_formed s \<Longrightarrow> well_formed t \<Longrightarrow>
   concat (map escape_char s) @ 34 # X = concat (map escape_char t) @ 34 # Y \<Longrightarrow>
   s = t \<and> X = Y"
proof (induction s arbitrary: t)
  case Nil
  show ?case
  proof (cases t)
    case Nil
    with Nil.prems show ?thesis by simp
  next
    case (Cons b t')
    with Nil.prems(3) have "escape_char b @ (concat (map escape_char t') @ 34 # Y) = 34 # X"
      by simp
    then show ?thesis by (simp add: escape_char_no_quote)
  qed
next
  case (Cons a s)
  show ?case
  proof (cases t)
    case Nil
    with Cons.prems(3) have "escape_char a @ (concat (map escape_char s) @ 34 # X) = 34 # Y"
      by simp
    then show ?thesis by (simp add: escape_char_no_quote)
  next
    case (Cons b t')
    from Cons.prems(1) have a: "scalar_value a" and s: "well_formed s"
      by (simp_all add: well_formed_def)
    from Cons.prems(2) Cons have b: "scalar_value b" and t': "well_formed t'"
      by (simp_all add: well_formed_def)
    from Cons.prems(3) Cons
    have "escape_char a @ (concat (map escape_char s) @ 34 # X)
        = escape_char b @ (concat (map escape_char t') @ 34 # Y)"
      by simp
    with a b have ab: "a = b"
      and rest: "concat (map escape_char s) @ 34 # X = concat (map escape_char t') @ 34 # Y"
      using escape_char_cancel by blast+
    from Cons.IH [OF s t' rest] ab Cons show ?thesis by simp
  qed
qed

lemma encode_str_cancel:
  assumes "well_formed s" "well_formed t"
  shows "encode_str s @ X = encode_str t @ Y \<longleftrightarrow> s = t \<and> X = Y"
  using escaped_text_cancel [OF assms, of X Y] by (auto simp: encode_str_def)

lemma encode_str_head: "encode_str s @ X = 34 # concat (map escape_char s) @ 34 # X"
  by (simp add: encode_str_def)

lemma join_Cons: "join sep (x # xs) = x @ (if xs = [] then [] else sep @ join sep xs)"
  by (cases xs) simp_all

lemma dec_digits_digits: "c \<in> set (dec_digits n) \<Longrightarrow> 48 \<le> c \<and> c \<le> 57"
proof (induction n arbitrary: c rule: dec_digits.induct)
  case (1 n)
  show ?case
  proof (cases "n < 10")
    case True
    with "1.prems" show ?thesis by (simp add: dec_digits.simps [of n])
  next
    case False
    with "1.prems" have "c \<in> set (dec_digits (n div 10)) \<or> c = 48 + n mod 10"
      by (auto simp: dec_digits.simps [of n])
    then show ?thesis
    proof
      assume "c \<in> set (dec_digits (n div 10))"
      with False show ?thesis by (rule "1.IH")
    next
      assume c: "c = 48 + n mod 10"
      have "n mod 10 < 10" by simp
      with c show ?thesis by linarith
    qed
  qed
qed

lemma dec_digits_nonempty: "dec_digits n \<noteq> []"
  by (simp add: dec_digits.simps [of n])

lemma dec_digits_value: "foldl (\<lambda>a d. 10 * a + (d - 48)) 0 (dec_digits n) = n"
proof (induction n rule: dec_digits.induct)
  case (1 n)
  show ?case
  proof (cases "n < 10")
    case True
    then show ?thesis by (simp add: dec_digits.simps [of n])
  next
    case False
    with 1 show ?thesis by (simp add: dec_digits.simps [of n])
  qed
qed

lemma dec_digits_inj: "dec_digits m = dec_digits n \<Longrightarrow> m = n"
  by (metis dec_digits_value)

lemma dec_digits_span:
  "takeWhile (\<lambda>c. 48 \<le> c \<and> c \<le> 57) (dec_digits n @ 44 # X) = dec_digits n"
proof -
  have "\<forall>c\<in>set (dec_digits n). 48 \<le> c \<and> c \<le> 57"
    using dec_digits_digits by blast
  then show ?thesis by (simp add: takeWhile_append2)
qed

lemma dec_digits_cancel:
  assumes "dec_digits m @ 44 # X = dec_digits n @ 44 # Y"
  shows "m = n \<and> X = Y"
proof -
  have "dec_digits m = takeWhile (\<lambda>c. 48 \<le> c \<and> c \<le> 57) (dec_digits m @ 44 # X)"
    by (simp only: dec_digits_span)
  also have "\<dots> = dec_digits n"
    unfolding assms by (simp only: dec_digits_span)
  finally have d: "dec_digits m = dec_digits n" .
  then have "m = n" by (rule dec_digits_inj)
  with assms show ?thesis by simp
qed

lemma dec_digits_no_minus: "dec_digits n @ X \<noteq> 45 # Y"
proof
  assume eq: "dec_digits n @ X = 45 # Y"
  obtain d ds where ds: "dec_digits n = d # ds"
    using dec_digits_nonempty [of n] by (cases "dec_digits n") auto
  then have "d \<in> set (dec_digits n)" by simp
  then have "48 \<le> d" using dec_digits_digits by blast
  moreover from eq ds have "d = 45" by simp
  ultimately show False by simp
qed

lemma int_repr_cancel [simp]:
  "int_repr i @ 44 # X = int_repr j @ 44 # Y \<longleftrightarrow> i = j \<and> X = Y"
proof
  assume eq: "int_repr i @ 44 # X = int_repr j @ 44 # Y"
  show "i = j \<and> X = Y"
  proof (cases "i < 0")
    case i: True
    show ?thesis
    proof (cases "j < 0")
      case True
      with i eq have "dec_digits (nat (- i)) @ 44 # X = dec_digits (nat (- j)) @ 44 # Y"
        by (simp add: int_repr_def)
      then have "nat (- i) = nat (- j) \<and> X = Y" by (rule dec_digits_cancel)
      with i True show ?thesis by auto
    next
      case False
      with i eq have "dec_digits (nat j) @ 44 # Y = 45 # dec_digits (nat (- i)) @ 44 # X"
        by (simp add: int_repr_def)
      then show ?thesis by (simp add: dec_digits_no_minus)
    qed
  next
    case i: False
    show ?thesis
    proof (cases "j < 0")
      case True
      with i eq have "dec_digits (nat i) @ 44 # X = 45 # dec_digits (nat (- j)) @ 44 # Y"
        by (simp add: int_repr_def)
      then show ?thesis by (simp add: dec_digits_no_minus)
    next
      case False
      with i eq have "dec_digits (nat i) @ 44 # X = dec_digits (nat j) @ 44 # Y"
        by (simp add: int_repr_def)
      then have "nat i = nat j \<and> X = Y" by (rule dec_digits_cancel)
      with i False show ?thesis by auto
    qed
  qed
qed simp

lemma bool_text_cancel:
  "json_dumps (JBool a) @ 125 # X = json_dumps (JBool b) @ 125 # Y \<longleftrightarrow> a = b \<and> X = Y"
  by (cases a; cases b) (simp_all add: ascii_def)

lemma join_encoded_cancel:
  "list_all well_formed xs \<Longrightarrow> list_all well_formed ys \<Longrightarrow>
   join [44, 32] (map encode_str xs) @ 93 # X = join [44, 32] (map encode_str ys) @ 93 # Y \<Longrightarrow>
   xs = ys \<and> X = Y"
proof (induction xs arbitrary: ys)
  case Nil
  then show ?case
    by (cases ys) (simp_all add: join_Cons encode_str_def)
next
  case (Cons x xs)
  show ?case
  proof (cases ys)
    case Nil
    with Cons.prems(3) show ?thesis by (simp add: join_Cons encode_str_def)
  next
    case ys: (Cons y ys')
    from Cons.prems(1) have x: "well_formed x" and xs: "list_all well_formed xs" by simp_all
    from Cons.prems(2) ys have y: "well_formed y" and ys': "list_all well_formed ys'" by simp_all
    let ?T = "\<lambda>zs Z. (if zs = [] then [] else [44, 32] @ join [44, 32] (map encode_str zs)) @ 93 # Z"
    from Cons.prems(3) ys have "encode_str x @ ?T xs X = encode_str y @ ?T ys' Y"
      by (simp add: join_Cons)
    then have xy: "x = y" and rest: "?T xs X = ?T ys' Y"
      using encode_str_cancel [OF x y] by blast+
    show ?thesis
    proof (cases "xs = []")
      case True
      with rest have "ys' = []" by (auto split: if_splits)
      with True rest xy ys show ?thesis by simp
    next
      case False
      with rest have ne: "ys' \<noteq> []" by (auto split: if_splits)
      with False rest
      have "join [44, 32] (map encode_str xs) @ 93 # X = join [44, 32] (map encode_str ys') @ 93 # Y"
        by simp
      from Cons.IH [OF xs ys' this] xy ys show ?thesis by simp
    qed
  qed
qed

end
